theory Spec2Isabelle
  imports Complex_Main "HOL-Library.AList"
begin

section \<open>Python values\<close>

text \<open>
  A Python \<open>float\<close> is modelled as an exact real number together with the one
  distinction of IEEE arithmetic that the program can observe through \<open>str\<close>:
  the negative zero. \<open>Flt r\<close> is the float of value \<open>r\<close> (\<open>Flt 0\<close> is \<open>0.0\<close>),
  \<open>NegZero\<close> is \<open>-0.0\<close>. Rounding errors of the binary representation, infinities
  and NaN are not modelled: arithmetic is exact. What the program does with a
  \<open>dict\<close>, a \<open>set\<close>, \<open>min\<close>, \<open>==\<close> and its loops does not depend on that; which
  numbers a distance or a mean evaluates to can.
\<close>

datatype pyfloat = NegZero | Flt real

fun fval :: "pyfloat \<Rightarrow> real" where
  "fval NegZero = 0"
| "fval (Flt r) = r"

text \<open>Python's \<open>==\<close>, \<open><\<close> and \<open>>\<close> on floats compare values: \<open>-0.0 == 0.0\<close>.\<close>

definition float_eq :: "pyfloat \<Rightarrow> pyfloat \<Rightarrow> bool" where
  "float_eq a b = (fval a = fval b)"

definition float_lt :: "pyfloat \<Rightarrow> pyfloat \<Rightarrow> bool" where
  "float_lt a b = (fval a < fval b)"

definition float_gt :: "pyfloat \<Rightarrow> pyfloat \<Rightarrow> bool" where
  "float_gt a b = (fval b < fval a)"

text \<open>
  \<open>round(v, 1)\<close>: the nearest multiple of one tenth, a tie going to the even
  multiple; the sign of the argument is kept, so that a negative value that rounds to
  zero gives \<open>-0.0\<close> (in Python \<open>round(-0.04, 1)\<close> prints as \<open>-0.0\<close>).
\<close>

definition round_half_even :: "real \<Rightarrow> int" where
  "round_half_even r =
     (let n = \<lfloor>r\<rfloor>; d = r - of_int n
      in if d < 1 / 2 then n else if 1 / 2 < d then n + 1 else if even n then n else n + 1)"

definition py_round1 :: "pyfloat \<Rightarrow> pyfloat" where
  "py_round1 v =
     (case v of
        NegZero \<Rightarrow> NegZero
      | Flt r \<Rightarrow>
          (let q = of_int (round_half_even (r * 10)) / 10
           in if q = 0 \<and> r < 0 then NegZero else Flt q))"

text \<open>
  \<open>str\<close> of a float, as \<open>"{}".format\<close> prints it: a sign, the integer part, a
  point and the tenths. This is what Python prints for the values a \<open>Point\<close> holds
  (multiples of one tenth) below \<open>1e16\<close>.
\<close>

fun digits :: "nat \<Rightarrow> string" where
  "digits n = (if n < 10 then [''0123456789'' ! n] else digits (n div 10) @ [''0123456789'' ! (n mod 10)])"

definition float_str :: "pyfloat \<Rightarrow> string" where
  "float_str v =
     (let t = nat \<lfloor>\<bar>fval v\<bar> * 10\<rfloor>
      in (if v = NegZero \<or> fval v < 0 then ''-'' else []) @ digits (t div 10) @ ''.'' @ digits (t mod 10))"

text \<open>
  \<open>hash\<close> of a \<open>str\<close>: equal strings have equal hashes, and the hashes of distinct
  strings are taken to be distinct (the interpreter's 64-bit hash is keyed at random per
  process, its collisions are left out). A hash value is therefore the string it was
  computed from.
\<close>

datatype hash_value = HashOfStr string

text \<open>The exceptions the program's operations can raise.\<close>

datatype error = ZeroDivisionError | ValueError

section \<open>class Point\<close>

record point =
  pt_x :: pyfloat
  pt_y :: pyfloat

definition Point :: "pyfloat \<Rightarrow> pyfloat \<Rightarrow> point" where
  "Point in_x in_y = \<lparr>pt_x = py_round1 in_x, pt_y = py_round1 in_y\<rparr>"

text \<open>
  \<open>math.sqrt(pow(dx, 2) + pow(dy, 2))\<close>: a square is never negative, so the result is
  never \<open>-0.0\<close> and is given as a real. The value is the exact one: the interpreter
  rounds each of the five operations to a double, so that two distances that are equal
  here can differ in the last digit there and conversely, and \<open>pow\<close> raises
  \<open>OverflowError\<close> beyond the range of a double. The general theorems below use
  of \<open>distance\<close> only that it is a function of the values of the four coordinates.
\<close>

definition distance :: "point \<Rightarrow> point \<Rightarrow> real" where
  "distance self in_other =
     sqrt ((fval (pt_x self) - fval (pt_x in_other))\<^sup>2 + (fval (pt_y self) - fval (pt_y in_other))\<^sup>2)"

definition Point_eq :: "point \<Rightarrow> point \<Rightarrow> bool" where
  "Point_eq self in_other = (float_eq (pt_x self) (pt_x in_other) \<and> float_eq (pt_y self) (pt_y in_other))"

definition Point_ne :: "point \<Rightarrow> point \<Rightarrow> bool" where
  "Point_ne self in_other = (\<not> Point_eq self in_other)"

definition Point_hash :: "point \<Rightarrow> hash_value" where
  "Point_hash self = HashOfStr (float_str (pt_x self) @ '','' @ float_str (pt_y self))"

text \<open>
  \<open>x_min_max\<close> and \<open>y_min_max\<close>: both accumulators start at the integer \<open>0\<close>, and
  the loop replaces one only by a coordinate that is strictly smaller (larger). No path
  raises: the result is always a value.
\<close>

definition x_min_max :: "point list \<Rightarrow> error + (pyfloat \<times> pyfloat)" where
  "x_min_max in_points =
     Inr (fold (\<lambda>point (x_min, x_max).
                  (if float_gt x_min (pt_x point) then pt_x point else x_min,
                   if float_lt x_max (pt_x point) then pt_x point else x_max))
               in_points (Flt 0, Flt 0))"

definition y_min_max :: "point list \<Rightarrow> error + (pyfloat \<times> pyfloat)" where
  "y_min_max in_points =
     Inr (fold (\<lambda>point (y_min, y_max).
                  (if float_gt y_min (pt_y point) then pt_y point else y_min,
                   if float_lt y_max (pt_y point) then pt_y point else y_max))
               in_points (Flt 0, Flt 0))"

section \<open>kmeans\<close>

text \<open>
  A \<open>dict\<close> keeps its keys in the order of their first insertion, and an assignment
  to a key that is present replaces the value in place: it is an association list with
  \<open>AList.update\<close>. A \<open>dict\<close> or \<open>set\<close> finds a \<open>Point\<close> key by \<open>__hash__\<close> and
  then \<open>__eq__\<close>; lemma \<open>Point_key_identity\<close> below shows that the two together are
  the equality of the model's \<open>point\<close> values, which is what \<open>AList.update\<close> and
  \<open>remdups\<close> compare. The \<open>print\<close> calls of the loop are left out.
\<close>

subsection \<open>\<open>_choose_barycenters\<close>\<close>

text \<open>
  \<open>uniform(a, b)\<close> is \<open>a + (b - a) * random()\<close>; the value \<open>u\<close> that \<open>random()\<close>
  returned (a float of \<open>[0, 1)\<close>) is an input. The program calls it with
  \<open>a \<le> 0 \<le> b\<close>, neither a negative zero, where a result of value zero is \<open>0.0\<close>.
  The sum and the product are exact here and rounded to a double by the interpreter:
  which candidate a draw gives can differ, that it lies between \<open>a\<close> and \<open>b\<close>
  does not.
\<close>

definition uniform :: "pyfloat \<Rightarrow> pyfloat \<Rightarrow> real \<Rightarrow> pyfloat" where
  "uniform a b u = Flt (fval a + (fval b - fval a) * u)"

text \<open>
  The \<open>while True\<close> loop. Each round takes two random draws from the list \<open>draws\<close>;
  the result is \<open>None\<close> when the draws run out before \<open>_in_k\<close> barycenters were
  chosen. \<open>selected\<close> is a \<open>dict\<close> of \<open>dict\<close>s whose keys are floats, found by value
  (\<open>hash(-0.0) == hash(0.0)\<close>): a map on reals. \<open>sel_x\<close> is \<open>selected.get(x, {})\<close>,
  and the two assignments to \<open>selected\<close> are the one update
  \<open>selected(x \<mapsto> sel_x(y \<mapsto> ()))\<close>.
\<close>

fun choose_loop ::
  "pyfloat \<Rightarrow> pyfloat \<Rightarrow> pyfloat \<Rightarrow> pyfloat \<Rightarrow> int \<Rightarrow> real list \<Rightarrow>
   (real \<rightharpoonup> (real \<rightharpoonup> unit)) \<Rightarrow> point list \<Rightarrow> point list option" where
  "choose_loop x_min x_max y_min y_max in_k (u1 # u2 # draws) selected result =
     (let x = py_round1 (uniform x_min x_max u1);
          y = py_round1 (uniform y_min y_max u2);
          sel_x = (case selected (fval x) of None \<Rightarrow> Map.empty | Some d \<Rightarrow> d)
      in if sel_x (fval y) \<noteq> None
         then choose_loop x_min x_max y_min y_max in_k draws selected result
         else (let selected' = selected(fval x \<mapsto> sel_x(fval y \<mapsto> ()));
                   result' = result @ [Point x y]
               in if int (length result') = in_k then Some result'
                  else choose_loop x_min x_max y_min y_max in_k draws selected' result'))"
| "choose_loop x_min x_max y_min y_max in_k draws selected result = None"

definition choose_barycenters :: "real list \<Rightarrow> point list \<Rightarrow> int \<Rightarrow> (error + point list) option" where
  "choose_barycenters draws in_points in_k =
     (case x_min_max in_points of
        Inl e \<Rightarrow> Some (Inl e)
      | Inr (x_min, x_max) \<Rightarrow>
          (case y_min_max in_points of
             Inl e \<Rightarrow> Some (Inl e)
           | Inr (y_min, y_max) \<Rightarrow>
               map_option Inr (choose_loop x_min x_max y_min y_max in_k draws Map.empty [])))"

subsection \<open>\<open>_assign_barycenters\<close>\<close>

text \<open>\<open>distances[_point]\<close> after the inner loop, and \<open>distances\<close> after the outer one.\<close>

definition point_distances :: "point \<Rightarrow> point list \<Rightarrow> (point \<times> real) list" where
  "point_distances p in_barycenters =
     fold (\<lambda>b dist_p. AList.update b (distance p b) dist_p) in_barycenters []"

definition all_distances :: "point list \<Rightarrow> point list \<Rightarrow> (point \<times> (point \<times> real) list) list" where
  "all_distances in_points in_barycenters =
     fold (\<lambda>p distances. AList.update p (point_distances p in_barycenters) distances) in_points []"

text \<open>
  \<open>min(dist, key=dist.get)\<close>: the keys are visited in order and the candidate is
  replaced only by a key whose value is strictly smaller; \<open>min\<close> of an empty \<open>dict\<close>
  raises \<open>ValueError\<close>.
\<close>

fun min_by_value :: "('k \<times> real) list \<Rightarrow> error + 'k" where
  "min_by_value [] = Inl ValueError"
| "min_by_value ((k, v) # kvs) =
     Inr (fst (fold (\<lambda>(k', v') (bk, bv). if v' < bv then (k', v') else (bk, bv)) kvs (k, v)))"

fun assign_loop ::
  "(point \<times> (point \<times> real) list) list \<Rightarrow> (point \<times> point) list \<Rightarrow> error + (point \<times> point) list" where
  "assign_loop [] result = Inr result"
| "assign_loop ((p, dist_p) # rest) result =
     (case min_by_value dist_p of
        Inl e \<Rightarrow> Inl e
      | Inr b \<Rightarrow> assign_loop rest (AList.update p b result))"

definition assign_barycenters :: "point list \<Rightarrow> point list \<Rightarrow> error + (point \<times> point) list" where
  "assign_barycenters in_points in_barycenters = assign_loop (all_distances in_points in_barycenters) []"

subsection \<open>Grouping the points by barycenter\<close>

text \<open>
  \<open>{n: [k for k in pb.keys() if pb[k] == n] for n in set(pb.values())}\<close>. The order in
  which a \<open>set\<close> is iterated is not fixed by the language: \<open>set_order\<close> gives it, as a
  function from the distinct values to the order of their visit. The list comprehension
  compares with \<open>==\<close>, that is \<open>Point_eq\<close>; it is written over the items of the
  \<open>dict\<close>, whose keys are distinct.
\<close>

definition group_points ::
  "(point list \<Rightarrow> point list) \<Rightarrow> (point \<times> point) list \<Rightarrow> (point \<times> point list) list" where
  "group_points set_order point_barycenter =
     map (\<lambda>n. (n, map fst (filter (\<lambda>(k, b). Point_eq b n) point_barycenter)))
         (set_order (remdups (map snd point_barycenter)))"

subsection \<open>\<open>_find_barycenter\<close> and \<open>_find_barycenters\<close>\<close>

text \<open>
  \<open>sum\<close> starts from the integer \<open>0\<close>, so a sum of value zero is \<open>0.0\<close>. The sum and
  the division are exact here, before the rounding to one decimal place; the interpreter
  rounds every addition and the division to a double first, so that a mean next to a
  rounding boundary (\<open>0.35\<close>, \<open>0.45\<close>) can fall on the other side there. The
  general theorems below use of \<open>find_barycenter\<close> only that it is a function of the
  member list and raises exactly on the empty list.
\<close>

definition find_barycenter :: "point list \<Rightarrow> error + point" where
  "find_barycenter in_points =
     (if length in_points = 0 then Inl ZeroDivisionError
      else Inr (Point (Flt (sum_list (map (\<lambda>p. fval (pt_x p)) in_points) / real (length in_points)))
                      (Flt (sum_list (map (\<lambda>p. fval (pt_y p)) in_points) / real (length in_points)))))"

fun find_barycenters_loop ::
  "(point \<times> point list) list \<Rightarrow> bool \<Rightarrow> (point \<times> point list) list \<Rightarrow>
   error + (bool \<times> (point \<times> point list) list)" where
  "find_barycenters_loop [] changed result = Inr (changed, result)"
| "find_barycenters_loop ((b, pts) # rest) changed result =
     (case find_barycenter pts of
        Inl e \<Rightarrow> Inl e
      | Inr new_b \<Rightarrow>
          find_barycenters_loop rest (if Point_ne b new_b then True else changed)
            (AList.update new_b pts result))"

definition find_barycenters ::
  "(point \<times> point list) list \<Rightarrow> error + (bool \<times> (point \<times> point list) list)" where
  "find_barycenters in_barycenter_points = find_barycenters_loop in_barycenter_points False []"

subsection \<open>The main loop\<close>

text \<open>
  The \<open>while True\<close> loop of \<open>kmeans\<close>, with a bound on the number of rounds: the
  result is \<open>None\<close> when the loop has not left after \<open>fuel\<close> rounds, \<open>Some (Inl e)\<close>
  when a round raised \<open>e\<close>, and \<open>Some (Inr partition)\<close> when it returned.
\<close>

fun kmeans_loop ::
  "(point list \<Rightarrow> point list) \<Rightarrow> nat \<Rightarrow> point list \<Rightarrow> point list \<Rightarrow>
   (error + (point \<times> point list) list) option" where
  "kmeans_loop set_order 0 in_points barycenters = None"
| "kmeans_loop set_order (Suc fuel) in_points barycenters =
     (case assign_barycenters in_points barycenters of
        Inl e \<Rightarrow> Some (Inl e)
      | Inr point_barycenter \<Rightarrow>
          (case find_barycenters (group_points set_order point_barycenter) of
             Inl e \<Rightarrow> Some (Inl e)
           | Inr (changed, barycenter_points) \<Rightarrow>
               if \<not> changed then Some (Inr barycenter_points)
               else kmeans_loop set_order fuel in_points (map fst barycenter_points)))"

definition kmeans ::
  "(point list \<Rightarrow> point list) \<Rightarrow> real list \<Rightarrow> nat \<Rightarrow> point list \<Rightarrow> int \<Rightarrow>
   (error + (point \<times> point list) list) option" where
  "kmeans set_order draws fuel in_points in_k =
     (case choose_barycenters draws in_points in_k of
        None \<Rightarrow> None
      | Some (Inl e) \<Rightarrow> Some (Inl e)
      | Some (Inr barycenters) \<Rightarrow> kmeans_loop set_order fuel in_points barycenters)"

section \<open>Notions used in the statements\<close>

text \<open>
  \<open>first_nearest p bs c\<close>: \<open>c\<close> is the first barycenter of the list \<open>bs\<close> at the
  smallest distance from \<open>p\<close>: every barycenter before it is strictly farther, none
  after it is nearer.
\<close>

definition first_nearest :: "point \<Rightarrow> point list \<Rightarrow> point \<Rightarrow> bool" where
  "first_nearest p bs c =
     (\<exists>pre post. bs = pre @ c # post \<and> (\<forall>c' \<in> set pre. distance p c < distance p c') \<and>
        (\<forall>c' \<in> set post. distance p c \<le> distance p c'))"

text \<open>
  What is known of the order in which Python iterates a \<open>set\<close>: it visits each
  element once.
\<close>

definition is_set_order :: "(point list \<Rightarrow> point list) \<Rightarrow> bool" where
  "is_set_order set_order = (\<forall>xs. distinct xs \<longrightarrow> distinct (set_order xs) \<and> set (set_order xs) = set xs)"

text \<open>
  The point that \<open>find_barycenter\<close> returns on a non-empty list, without the error
  branch.
\<close>

definition spec_centroid :: "point list \<Rightarrow> point" where
  "spec_centroid pts =
     \<lparr>pt_x = py_round1 (Flt (sum_list (map (\<lambda>p. fval (pt_x p)) pts) / real (length pts))),
      pt_y = py_round1 (Flt (sum_list (map (\<lambda>p. fval (pt_y p)) pts) / real (length pts)))\<rparr>"

section \<open>Theorems\<close>

subsection \<open>Points: rounding, equality, hash\<close>

lemma round_half_even_bounds: "\<bar>of_int (round_half_even r) - r\<bar> \<le> 1 / 2"
  unfolding round_half_even_def Let_def by (auto; linarith)

lemma py_round1_value: "fval (py_round1 v) = of_int (round_half_even (fval v * 10)) / 10"
  by (cases v) (auto simp: py_round1_def Let_def round_half_even_def)

lemma py_round1_near: "\<bar>fval (py_round1 v) - fval v\<bar> \<le> 1 / 20"
  using round_half_even_bounds [of "fval v * 10"] by (simp add: py_round1_value field_simps)

text \<open>
  Claim C8. \<open>Point(in_x, in_y)\<close> stores both coordinates rounded to one decimal place
  (each stored value is a whole number of tenths, at most one twentieth away from the
  input); two points are equal exactly when the values of both stored coordinates are
  equal; and \<open>Point(2.34999, 5.05001) == Point(2.3, 5.1)\<close>.
\<close>

theorem Point_rounds_and_eq:
  "pt_x (Point in_x in_y) = py_round1 in_x \<and> pt_y (Point in_x in_y) = py_round1 in_y \<and>
   (\<exists>n :: int. fval (py_round1 in_x) = of_int n / 10) \<and> \<bar>fval (py_round1 in_x) - fval in_x\<bar> \<le> 1 / 20 \<and>
   (\<exists>n :: int. fval (py_round1 in_y) = of_int n / 10) \<and> \<bar>fval (py_round1 in_y) - fval in_y\<bar> \<le> 1 / 20 \<and>
   Point_eq a b = (fval (pt_x a) = fval (pt_x b) \<and> fval (pt_y a) = fval (pt_y b)) \<and>
   Point_eq (Point (Flt 2.34999) (Flt 5.05001)) (Point (Flt 2.3) (Flt 5.1))"
proof -
  have ex: "Point_eq (Point (Flt 2.34999) (Flt 5.05001)) (Point (Flt 2.3) (Flt 5.1))"
    by (simp add: Point_eq_def float_eq_def Point_def py_round1_def round_half_even_def Let_def)
  have mult: "\<exists>n :: int. fval (py_round1 v) = of_int n / 10" for v
    by (auto simp: py_round1_value)
  show ?thesis
    using ex mult [of in_x] mult [of in_y] py_round1_near [of in_x] py_round1_near [of in_y]
    by (simp add: Point_def Point_eq_def float_eq_def)
qed

text \<open>
  Claim C9 asks that equal points have equal hashes. The code breaks it at the negative
  zero: \<open>Point(-0.0, 0.0) == Point(0.0, 0.0)\<close> holds, since \<open>-0.0 == 0.0\<close>, but the
  strings that are hashed are \<open>"-0.0,0.0"\<close> and \<open>"0.0,0.0"\<close>. The same happens for
  \<open>Point(-0.04, 0.0)\<close> and \<open>Point(0.04, 0.0)\<close>, whose abscissas round to \<open>-0.0\<close> and
  \<open>0.0\<close>.
\<close>

theorem Point_hash_negative_zero:
  "Point_eq (Point NegZero (Flt 0)) (Point (Flt 0) (Flt 0)) \<and>
   Point_hash (Point NegZero (Flt 0)) \<noteq> Point_hash (Point (Flt 0) (Flt 0)) \<and>
   Point_eq (Point (Flt (- 0.04)) (Flt 0)) (Point (Flt 0.04) (Flt 0)) \<and>
   Point_hash (Point (Flt (- 0.04)) (Flt 0)) \<noteq> Point_hash (Point (Flt 0.04) (Flt 0))"
  by (simp add: Point_eq_def float_eq_def Point_hash_def Point_def py_round1_def
      round_half_even_def float_str_def Let_def)

text \<open>
  What a \<open>dict\<close> or a \<open>set\<close> takes for the same key, equal hashes and \<open>__eq__\<close>, is
  the equality of \<open>point\<close> values: the sign of a zero is part of the key.
\<close>

lemma float_str_NegZero: "float_str NegZero = ''-0.0''"
  by (simp add: float_str_def)

lemma float_str_zero: "float_str (Flt 0) = ''0.0''"
  by (simp add: float_str_def)

lemma fval_eq_cases:
  "fval a = fval b \<Longrightarrow> a = b \<or> (a = NegZero \<and> b = Flt 0) \<or> (a = Flt 0 \<and> b = NegZero)"
  by (cases a; cases b) auto

lemma float_str_inj_on_value: "fval a = fval b \<Longrightarrow> float_str a @ s = float_str b @ t \<Longrightarrow> a = b"
  using fval_eq_cases [of a b] by (auto simp: float_str_NegZero float_str_zero)

lemma Point_key_identity: "(Point_hash a = Point_hash b \<and> Point_eq a b) = (a = b)"
proof
  assume h: "Point_hash a = Point_hash b \<and> Point_eq a b"
  then have vx: "fval (pt_x a) = fval (pt_x b)" and vy: "fval (pt_y a) = fval (pt_y b)"
    by (simp_all add: Point_eq_def float_eq_def)
  from h have s: "float_str (pt_x a) @ '','' @ float_str (pt_y a)
      = float_str (pt_x b) @ '','' @ float_str (pt_y b)"
    by (simp add: Point_hash_def)
  from vx s have x: "pt_x a = pt_x b" by (rule float_str_inj_on_value)
  with s have "float_str (pt_y a) @ [] = float_str (pt_y b) @ []" by simp
  with vy have "pt_y a = pt_y b" by (rule float_str_inj_on_value)
  with x show "a = b" by simp
next
  assume "a = b"
  then show "Point_hash a = Point_hash b \<and> Point_eq a b"
    by (simp add: Point_eq_def float_eq_def)
qed

subsection \<open>The bounding range\<close>

text \<open>
  Claim C2 asks for \<open>(-5, -1)\<close> on the points \<open>(-5, -5)\<close> and \<open>(-1, -1)\<close>. The
  accumulators start at \<open>0\<close>, and no coordinate is larger than \<open>0\<close>: the code returns
  \<open>(-5, 0)\<close>, on both axes.
\<close>

theorem x_min_max_negative_points:
  "x_min_max [Point (Flt (- 5)) (Flt (- 5)), Point (Flt (- 1)) (Flt (- 1))] = Inr (Flt (- 5), Flt 0) \<and>
   y_min_max [Point (Flt (- 5)) (Flt (- 5)), Point (Flt (- 1)) (Flt (- 1))] = Inr (Flt (- 5), Flt 0)"
  by (simp add: x_min_max_def y_min_max_def Point_def py_round1_def round_half_even_def Let_def
      float_gt_def float_lt_def)

text \<open>
  Claim C3 says that the bounding range of an empty collection signals an error. It
  does not: on the empty list neither function raises.
\<close>

theorem min_max_empty_no_error: "\<not> isl (x_min_max []) \<and> \<not> isl (y_min_max [])"
  by (simp add: x_min_max_def y_min_max_def)

text \<open>
  Claim C3, amended: on an empty point collection \<open>x_min_max\<close> and \<open>y_min_max\<close>
  signal no error and return the pair \<open>(0, 0)\<close>.
\<close>

theorem min_max_empty_value:
  "x_min_max [] = Inr (Flt 0, Flt 0) \<and> y_min_max [] = Inr (Flt 0, Flt 0)"
  by (simp add: x_min_max_def y_min_max_def)

subsection \<open>The first minimum of a \<open>dict\<close>\<close>

lemma min_fold_split:
  "\<exists>pre post k v. fold (\<lambda>(k', v') (bk, bv). if v' < bv then (k', v') else (bk, bv)) kvs (bk0, bv0 :: real) = (k, v) \<and>
     (bk0, bv0) # kvs = pre @ (k, v) # post \<and>
     (\<forall>e \<in> set pre. v < snd e) \<and> (\<forall>e \<in> set post. v \<le> snd e)"
  (is "\<exists>pre post k v. ?P kvs bk0 bv0 pre post k v")
proof (induction kvs arbitrary: bk0 bv0)
  case Nil
  have "?P [] bk0 bv0 [] [] bk0 bv0" by simp
  then show ?case by blast
next
  case (Cons e kvs)
  obtain k1 v1 where e: "e = (k1, v1)" by (cases e)
  show ?case
  proof (cases "v1 < bv0")
    case True
    from Cons.IH [of k1 v1] obtain pre post k v where
      f: "fold (\<lambda>(k', v') (bk, bv). if v' < bv then (k', v') else (bk, bv)) kvs (k1, v1) = (k, v)"
      and s: "(k1, v1) # kvs = pre @ (k, v) # post"
      and p: "\<forall>e \<in> set pre. v < snd e" and q: "\<forall>e \<in> set post. v \<le> snd e"
      by blast
    have "v \<le> v1"
    proof (cases pre)
      case Nil with s show ?thesis by simp
    next
      case (Cons a list) with s p show ?thesis by auto
    qed
    with True have "v < bv0" by simp
    then have C: "\<forall>e \<in> set ((bk0, bv0) # pre). v < snd e" using p by simp
    have A: "fold (\<lambda>(k', v') (bk, bv). if v' < bv then (k', v') else (bk, bv)) (e # kvs) (bk0, bv0) = (k, v)"
      using f e True by simp
    have B: "(bk0, bv0) # e # kvs = ((bk0, bv0) # pre) @ (k, v) # post"
      using s e by simp
    from A B C q show ?thesis by blast
  next
    case False
    from Cons.IH [of bk0 bv0] obtain pre post k v where
      f: "fold (\<lambda>(k', v') (bk, bv). if v' < bv then (k', v') else (bk, bv)) kvs (bk0, bv0) = (k, v)"
      and s: "(bk0, bv0) # kvs = pre @ (k, v) # post"
      and p: "\<forall>e \<in> set pre. v < snd e" and q: "\<forall>e \<in> set post. v \<le> snd e"
      by blast
    show ?thesis
    proof (cases pre)
      case Nil
      with s have "k = bk0" "v = bv0" "kvs = post" by simp_all
      note n = this
      have A: "fold (\<lambda>(k', v') (bk, bv). if v' < bv then (k', v') else (bk, bv)) (e # kvs) (bk0, bv0) = (k, v)"
        using f e False by simp
      have B: "(bk0, bv0) # e # kvs = [] @ (k, v) # ((k1, v1) # post)"
        using n e by simp
      have C: "\<forall>e \<in> set ((k1, v1) # post). v \<le> snd e"
        using q n False by simp
      have D: "\<forall>e \<in> set ([] :: ('a \<times> real) list). v < snd e" by simp
      from A B C D show ?thesis by blast
    next
      case (Cons a pre')
      with s have a: "a = (bk0, bv0)" and r: "kvs = pre' @ (k, v) # post" by simp_all
      from p Cons a have "v < bv0" by simp
      with False have "v < v1" by simp
      then have C: "\<forall>e \<in> set ((bk0, bv0) # (k1, v1) # pre'). v < snd e"
        using p Cons a by simp
      have A: "fold (\<lambda>(k', v') (bk, bv). if v' < bv then (k', v') else (bk, bv)) (e # kvs) (bk0, bv0) = (k, v)"
        using f e False by simp
      have B: "(bk0, bv0) # e # kvs = ((bk0, bv0) # (k1, v1) # pre') @ (k, v) # post"
        using r e by simp
      from A B C q show ?thesis by blast
    qed
  qed
qed

lemma min_by_value_split:
  assumes "kvs \<noteq> []"
  shows "\<exists>pre post k v. min_by_value kvs = Inr k \<and> kvs = pre @ (k, v) # post \<and>
     (\<forall>e \<in> set pre. v < snd e) \<and> (\<forall>e \<in> set post. v \<le> snd e)"
proof -
  from assms obtain k0 v0 rest where kvs: "kvs = (k0, v0) # rest" by (cases kvs) auto
  from min_fold_split [of rest k0 v0] obtain pre post k v where
    f: "fold (\<lambda>(k', v') (bk, bv). if v' < bv then (k', v') else (bk, bv)) rest (k0, v0) = (k, v)"
    and s: "(k0, v0) # rest = pre @ (k, v) # post"
    and p: "\<forall>e \<in> set pre. v < snd e" and q: "\<forall>e \<in> set post. v \<le> snd e"
    by blast
  have A: "min_by_value kvs = Inr k" using f kvs by simp
  have B: "kvs = pre @ (k, v) # post" using s kvs by simp
  from A B p q show ?thesis by blast
qed


lemma update_absent: "k \<notin> fst ` set al \<Longrightarrow> AList.update k v al = al @ [(k, v)]"
  by (induction al) auto

lemma update_append_in: "k \<in> fst ` set xs \<Longrightarrow> AList.update k v (xs @ ys) = AList.update k v xs @ ys"
  by (induction xs) auto

lemma update_append_notin: "k \<notin> fst ` set xs \<Longrightarrow> AList.update k v (xs @ ys) = xs @ AList.update k v ys"
  by (induction xs) auto

lemma set_update_subset: "set (AList.update k v al) \<subseteq> insert (k, v) (set al)"
  by (induction al) auto

lemma fold_update_keys:
  "fst ` set (fold (\<lambda>b d. AList.update b (f b) d) bs acc) = fst ` set acc \<union> set bs"
  by (induction bs arbitrary: acc) (auto simp: AList.dom_update)

lemma fold_update_distinct:
  "distinct (map fst acc) \<Longrightarrow> distinct (map fst (fold (\<lambda>b d. AList.update b (f b) d) bs acc))"
  by (induction bs arbitrary: acc) (auto simp: AList.distinct_update)

lemma fold_update_values:
  "\<forall>e \<in> set acc. snd e = f (fst e) \<Longrightarrow>
   \<forall>e \<in> set (fold (\<lambda>b d. AList.update b (f b) d) bs acc). snd e = f (fst e)"
proof (induction bs arbitrary: acc)
  case Nil
  then show ?case by simp
next
  case (Cons b bs)
  have "\<forall>e \<in> set (AList.update b (f b) acc). snd e = f (fst e)"
    using Cons.prems set_update_subset [of b "f b" acc] by auto
  from Cons.IH [OF this] show ?case by simp
qed

lemma fold_update_keeps_split:
  "c \<notin> fst ` set X \<Longrightarrow>
   \<exists>X' Y'. fold (\<lambda>b d. AList.update b (f b) d) bs (X @ (c, f c) # Y) = X' @ (c, f c) # Y' \<and>
       fst ` set X' = fst ` set X"
proof (induction bs arbitrary: X Y)
  case Nil
  then show ?case by auto
next
  case (Cons b bs)
  show ?case
  proof (cases "b \<in> fst ` set X")
    case True
    then have u: "AList.update b (f b) (X @ (c, f c) # Y) = AList.update b (f b) X @ (c, f c) # Y"
      by (rule update_append_in)
    have k: "fst ` set (AList.update b (f b) X) = fst ` set X"
      using True by (auto simp: AList.dom_update)
    with Cons.prems have "c \<notin> fst ` set (AList.update b (f b) X)" by simp
    from Cons.IH [OF this, of Y] k u show ?thesis by simp
  next
    case False
    then have u: "AList.update b (f b) (X @ (c, f c) # Y) = X @ AList.update b (f b) ((c, f c) # Y)"
      by (rule update_append_notin)
    show ?thesis
    proof (cases "b = c")
      case True
      with u have "AList.update b (f b) (X @ (c, f c) # Y) = X @ (c, f c) # Y" by simp
      with Cons.IH [OF Cons.prems, of Y] show ?thesis by simp
    next
      case False
      with u have "AList.update b (f b) (X @ (c, f c) # Y) = X @ (c, f c) # AList.update b (f b) Y"
        by simp
      with Cons.IH [OF Cons.prems, of "AList.update b (f b) Y"] show ?thesis by simp
    qed
  qed
qed

lemma fold_update_order:
  assumes "bs = pre @ c # post" and "c \<notin> set pre"
  shows "\<exists>D1 D2. fold (\<lambda>b d. AList.update b (f b) d) bs [] = D1 @ (c, f c) # D2 \<and> fst ` set D1 = set pre"
proof -
  let ?D = "fold (\<lambda>b d. AList.update b (f b) d) pre []"
  have k: "fst ` set ?D = set pre" by (simp add: fold_update_keys)
  with assms(2) have n: "c \<notin> fst ` set ?D" by simp
  then have "AList.update c (f c) ?D = ?D @ [(c, f c)]" by (rule update_absent)
  then have "fold (\<lambda>b d. AList.update b (f b) d) bs [] =
      fold (\<lambda>b d. AList.update b (f b) d) post (?D @ (c, f c) # [])"
    using assms(1) by simp
  with fold_update_keeps_split [OF n, of f post "[]"] k show ?thesis by auto
qed

lemma split_unique:
  "distinct (map fst (A @ (c, v) # B)) \<Longrightarrow> A @ (c, v) # B = A' @ (c, v') # B' \<Longrightarrow> A = A'"
proof (induction A arbitrary: A')
  case Nil
  show ?case
  proof (cases A')
    case Nil then show ?thesis by simp
  next
    case (Cons a list)
    with Nil.prems have "(c, v') \<in> set B" by auto
    with Nil.prems(1) show ?thesis by (auto simp: image_iff)
  qed
next
  case (Cons a A)
  show ?case
  proof (cases A')
    case Nil
    with Cons.prems(2) have "a = (c, v')" by simp
    with Cons.prems(1) show ?thesis by simp
  next
    case (Cons a' A'')
    with Cons.prems(2) have h: "a = a'" and e: "A @ (c, v) # B = A'' @ (c, v') # B'" by simp_all
    from Cons.prems(1) have "distinct (map fst (A @ (c, v) # B))" by simp
    from Cons.IH [OF this e] h Cons show ?thesis by simp
  qed
qed

lemma min_point_distances:
  assumes "min_by_value (point_distances p bs) = Inr c"
  shows "first_nearest p bs c"
proof -
  let ?f = "distance p"
  let ?D = "point_distances p bs"
  have D: "?D = fold (\<lambda>b d. AList.update b (?f b) d) bs []" by (simp add: point_distances_def)
  have keys: "fst ` set ?D = set bs" unfolding D by (simp add: fold_update_keys)
  have dist: "distinct (map fst ?D)" unfolding D by (rule fold_update_distinct) simp
  have vals: "\<forall>e \<in> set ?D. snd e = ?f (fst e)" unfolding D by (rule fold_update_values) simp
  from assms have ne: "?D \<noteq> []" by auto
  from min_by_value_split [OF ne] assms obtain preD postD v where
    s: "?D = preD @ (c, v) # postD" and lt: "\<forall>e \<in> set preD. v < snd e"
    and le: "\<forall>e \<in> set postD. v \<le> snd e"
    by auto
  from s vals have v: "v = ?f c" by auto
  from s keys have "c \<in> set bs" by (metis UnCI fst_conv image_eqI list.set_intros(1) set_append)
  then obtain pre post where bs: "bs = pre @ c # post" and npre: "c \<notin> set pre"
    by (meson split_list_first)
  from fold_update_order [OF bs npre, of ?f] D obtain D1 D2 where
    o: "?D = D1 @ (c, ?f c) # D2" and k1: "fst ` set D1 = set pre"
    by auto
  from dist s have "distinct (map fst (preD @ (c, v) # postD))" by simp
  moreover from s o have "preD @ (c, v) # postD = D1 @ (c, ?f c) # D2" by simp
  ultimately have eq: "preD = D1" by (rule split_unique)
  have A: "\<forall>c' \<in> set pre. ?f c < ?f c'"
  proof
    fix c' assume "c' \<in> set pre"
    with k1 have "c' \<in> fst ` set D1" by simp
    then obtain e where e: "e \<in> set D1" "fst e = c'" by auto
    with eq s have "e \<in> set ?D" by simp
    with vals have "snd e = ?f (fst e)" by simp
    with e eq lt v show "?f c < ?f c'" by auto
  qed
  have B: "\<forall>c' \<in> set post. ?f c \<le> ?f c'"
  proof
    fix c' assume "c' \<in> set post"
    with bs keys have "c' \<in> fst ` set ?D" by simp
    then obtain e where e: "e \<in> set ?D" "fst e = c'" by auto
    with vals have se: "snd e = ?f c'" by simp
    from e(1) s have "e \<in> set preD \<or> e = (c, v) \<or> e \<in> set postD" by auto
    with lt le v se show "?f c \<le> ?f c'" by auto
  qed
  from bs A B show ?thesis unfolding first_nearest_def by blast
qed


lemma all_distances_keys: "fst ` set (all_distances ps bs) = set ps"
  by (simp add: all_distances_def fold_update_keys)

lemma all_distances_distinct: "distinct (map fst (all_distances ps bs))"
  unfolding all_distances_def by (rule fold_update_distinct) simp

lemma all_distances_values: "\<forall>e \<in> set (all_distances ps bs). snd e = point_distances (fst e) bs"
  unfolding all_distances_def by (rule fold_update_values) simp

lemma assign_loop_result:
  "assign_loop L acc = Inr pb \<Longrightarrow>
   fst ` set pb = fst ` set acc \<union> fst ` set L \<and>
   (distinct (map fst acc) \<longrightarrow> distinct (map fst pb)) \<and>
   (\<forall>e \<in> set pb. e \<in> set acc \<or> (\<exists>d. (fst e, d) \<in> set L \<and> min_by_value d = Inr (snd e)))"
proof (induction L arbitrary: acc)
  case Nil
  then show ?case by simp
next
  case (Cons e L)
  obtain p d where e: "e = (p, d)" by (cases e)
  from Cons.prems e obtain c where c: "min_by_value d = Inr c"
    and r: "assign_loop L (AList.update p c acc) = Inr pb"
    by (auto split: sum.splits)
  from Cons.IH [OF r] have
    k: "fst ` set pb = fst ` set (AList.update p c acc) \<union> fst ` set L"
    and di: "distinct (map fst (AList.update p c acc)) \<longrightarrow> distinct (map fst pb)"
    and v: "\<forall>e \<in> set pb. e \<in> set (AList.update p c acc) \<or>
          (\<exists>d. (fst e, d) \<in> set L \<and> min_by_value d = Inr (snd e))"
    by simp_all
  have A: "fst ` set pb = fst ` set acc \<union> fst ` set (e # L)"
    using k e by (auto simp: AList.dom_update)
  have B: "distinct (map fst acc) \<longrightarrow> distinct (map fst pb)"
    using di by (simp add: AList.distinct_update)
  have C: "\<forall>x \<in> set pb. x \<in> set acc \<or> (\<exists>d. (fst x, d) \<in> set (e # L) \<and> min_by_value d = Inr (snd x))"
  proof
    fix x assume "x \<in> set pb"
    with v have "x \<in> set (AList.update p c acc) \<or> (\<exists>d. (fst x, d) \<in> set L \<and> min_by_value d = Inr (snd x))"
      by simp
    moreover have "x \<in> set (AList.update p c acc) \<Longrightarrow> x = (p, c) \<or> x \<in> set acc"
      using set_update_subset [of p c acc] by auto
    ultimately show "x \<in> set acc \<or> (\<exists>d. (fst x, d) \<in> set (e # L) \<and> min_by_value d = Inr (snd x))"
      using c e by auto
  qed
  from A B C show ?case by blast
qed

lemma assign_barycenters_result:
  assumes "assign_barycenters in_points in_barycenters = Inr pb"
  shows "fst ` set pb = set in_points" and "distinct (map fst pb)"
    and "\<forall>e \<in> set pb. first_nearest (fst e) in_barycenters (snd e)"
proof -
  from assign_loop_result [OF assms [unfolded assign_barycenters_def]]
  have k: "fst ` set pb = fst ` set (all_distances in_points in_barycenters)"
    and d: "distinct (map fst pb)"
    and v: "\<forall>e \<in> set pb. \<exists>d. (fst e, d) \<in> set (all_distances in_points in_barycenters) \<and>
          min_by_value d = Inr (snd e)"
    by simp_all
  from k show "fst ` set pb = set in_points" by (simp add: all_distances_keys)
  from d show "distinct (map fst pb)" .
  show "\<forall>e \<in> set pb. first_nearest (fst e) in_barycenters (snd e)"
  proof
    fix e assume "e \<in> set pb"
    with v obtain d where m: "(fst e, d) \<in> set (all_distances in_points in_barycenters)"
      and r: "min_by_value d = Inr (snd e)" by blast
    from m all_distances_values [of in_points in_barycenters]
    have "d = point_distances (fst e) in_barycenters" by auto
    with r show "first_nearest (fst e) in_barycenters (snd e)"
      by (simp add: min_point_distances)
  qed
qed

subsection \<open>Groups\<close>

lemma Point_eq_refl: "Point_eq a a"
  by (simp add: Point_eq_def float_eq_def)

lemma Point_eq_sym: "Point_eq a b \<Longrightarrow> Point_eq b a"
  by (simp add: Point_eq_def float_eq_def)

lemma Point_eq_trans: "Point_eq a b \<Longrightarrow> Point_eq b c \<Longrightarrow> Point_eq a c"
  by (simp add: Point_eq_def float_eq_def)

lemma Point_eq_distance: "Point_eq a b \<Longrightarrow> distance p a = distance p b"
  by (simp add: Point_eq_def float_eq_def distance_def)

lemma two_splits:
  "pre1 @ c1 # post1 = pre2 @ c2 # post2 \<Longrightarrow> c1 \<noteq> c2 \<Longrightarrow> c1 \<in> set pre2 \<or> c2 \<in> set pre1"
  by (auto simp: append_eq_append_conv2 Cons_eq_append_conv append_eq_Cons_conv)

lemma first_nearest_separated:
  assumes "first_nearest p1 bs c1" and "first_nearest p2 bs c2" and "Point_eq c1 c2"
  shows "c1 = c2"
proof (rule ccontr)
  assume ne: "c1 \<noteq> c2"
  from assms(1) obtain pre1 post1 where b1: "bs = pre1 @ c1 # post1"
    and l1: "\<forall>c' \<in> set pre1. distance p1 c1 < distance p1 c'"
    unfolding first_nearest_def by blast
  from assms(2) obtain pre2 post2 where b2: "bs = pre2 @ c2 # post2"
    and l2: "\<forall>c' \<in> set pre2. distance p2 c2 < distance p2 c'"
    unfolding first_nearest_def by blast
  from b1 b2 have "pre1 @ c1 # post1 = pre2 @ c2 # post2" by simp
  from two_splits [OF this ne] show False
  proof
    assume "c1 \<in> set pre2"
    with l2 have "distance p2 c2 < distance p2 c1" by simp
    with Point_eq_distance [OF assms(3), of p2] show False by simp
  next
    assume "c2 \<in> set pre1"
    with l1 have "distance p1 c1 < distance p1 c2" by simp
    with Point_eq_distance [OF assms(3), of p1] show False by simp
  qed
qed

lemma group_points_keys:
  assumes "is_set_order set_order"
  shows "set (map fst (group_points set_order pb)) = snd ` set pb"
    and "distinct (map fst (group_points set_order pb))"
proof -
  have m: "map fst (group_points set_order pb) = set_order (remdups (map snd pb))"
    by (simp add: group_points_def comp_def)
  from assms have "distinct (set_order (remdups (map snd pb))) \<and>
      set (set_order (remdups (map snd pb))) = set (remdups (map snd pb))"
    unfolding is_set_order_def by simp
  with m show "set (map fst (group_points set_order pb)) = snd ` set pb"
    and "distinct (map fst (group_points set_order pb))" by simp_all
qed

lemma group_points_nonempty:
  assumes "is_set_order set_order" and "e \<in> set (group_points set_order pb)"
  shows "snd e \<noteq> []"
proof -
  from assms(2) obtain n where n: "n \<in> set (set_order (remdups (map snd pb)))"
    and e: "e = (n, map fst (filter (\<lambda>(k, b). Point_eq b n) pb))"
    by (auto simp: group_points_def)
  from assms(1) have "set (set_order (remdups (map snd pb))) = set (remdups (map snd pb))"
    unfolding is_set_order_def by simp
  with n obtain k where "(k, n) \<in> set pb" by auto
  then have "\<exists>x \<in> set pb. (case x of (k, b) \<Rightarrow> Point_eq b n)"
    by (rule rev_bexI) (simp add: Point_eq_refl)
  then have "filter (\<lambda>(k, b). Point_eq b n) pb \<noteq> []"
    by (simp add: filter_empty_conv)
  with e show ?thesis by simp
qed

lemma concat_groups:
  assumes "distinct (map fst pb)" and "distinct S"
  shows "distinct (concat (map (\<lambda>n. map fst (filter (\<lambda>e. snd e = n) pb)) S)) \<and>
         set (concat (map (\<lambda>n. map fst (filter (\<lambda>e. snd e = n) pb)) S)) = fst ` {e \<in> set pb. snd e \<in> set S}"
  using assms(2)
proof (induction S)
  case Nil
  then show ?case by simp
next
  case (Cons n S)
  let ?G = "\<lambda>n. map fst (filter (\<lambda>e. snd e = n) pb)"
  from Cons have IH: "distinct (concat (map ?G S))"
    "set (concat (map ?G S)) = fst ` {e \<in> set pb. snd e \<in> set S}" by simp_all
  have d: "distinct (?G n)" using assms(1) by (rule distinct_map_filter)
  have dis: "set (?G n) \<inter> set (concat (map ?G S)) = {}"
  proof (rule ccontr)
    assume "set (?G n) \<inter> set (concat (map ?G S)) \<noteq> {}"
    then obtain k where k1: "k \<in> set (?G n)" and k2: "k \<in> set (concat (map ?G S))" by auto
    from k1 have e1: "(k, n) \<in> set pb" by auto
    from k2 IH(2) obtain b where e2: "(k, b) \<in> set pb" and b: "b \<in> set S" by auto
    from eq_key_imp_eq_value [OF assms(1) e1 e2] b Cons.prems show False by simp
  qed
  have s: "set (?G n) \<union> set (concat (map ?G S)) = fst ` {e \<in> set pb. snd e \<in> set (n # S)}"
    using IH(2) by auto
  from d IH(1) dis s show ?case by simp
qed

lemma group_points_cover:
  assumes ord: "is_set_order set_order" and dist: "distinct (map fst pb)"
    and sep: "\<forall>e1 \<in> set pb. \<forall>e2 \<in> set pb. Point_eq (snd e1) (snd e2) \<longrightarrow> snd e1 = snd e2"
  shows "distinct (concat (map snd (group_points set_order pb)))"
    and "set (concat (map snd (group_points set_order pb))) = fst ` set pb"
proof -
  let ?S = "set_order (remdups (map snd pb))"
  from ord have dS: "distinct ?S" and sS: "set ?S = snd ` set pb"
    unfolding is_set_order_def by simp_all
  have f: "filter (\<lambda>(k, b). Point_eq b n) pb = filter (\<lambda>e. snd e = n) pb" if "n \<in> set ?S" for n
  proof (rule filter_cong [OF refl])
    fix e assume e: "e \<in> set pb"
    from that sS obtain e' where e': "e' \<in> set pb" "snd e' = n" by auto
    with sep e have "Point_eq (snd e) n \<longrightarrow> snd e = n" by blast
    then show "(case e of (k, b) \<Rightarrow> Point_eq b n) = (snd e = n)"
      by (cases e) (auto simp: Point_eq_refl)
  qed
  have m: "map snd (group_points set_order pb) = map (\<lambda>n. map fst (filter (\<lambda>e. snd e = n) pb)) ?S"
    using f by (simp add: group_points_def comp_def)
  from concat_groups [OF dist dS] m sS
  show "distinct (concat (map snd (group_points set_order pb)))"
    and "set (concat (map snd (group_points set_order pb))) = fst ` set pb"
    by auto
qed

subsection \<open>Recomputed barycenters\<close>

lemma find_barycenter_nonempty: "pts \<noteq> [] \<Longrightarrow> find_barycenter pts = Inr (spec_centroid pts)"
  by (simp add: find_barycenter_def spec_centroid_def Point_def)

lemma find_barycenter_Inr: "find_barycenter pts = Inr c \<Longrightarrow> pts \<noteq> [] \<and> c = spec_centroid pts"
  by (auto simp: find_barycenter_def spec_centroid_def Point_def split: if_splits)

lemma find_barycenter_Inl: "find_barycenter pts = Inl e \<Longrightarrow> pts = [] \<and> e = ZeroDivisionError"
  by (auto simp: find_barycenter_def split: if_splits)

lemma find_barycenters_loop_returns:
  "\<forall>e \<in> set L. snd e \<noteq> [] \<Longrightarrow>
   find_barycenters_loop L changed acc =
     Inr (changed \<or> (\<exists>e \<in> set L. Point_ne (fst e) (spec_centroid (snd e))),
          fold (\<lambda>e r. AList.update (spec_centroid (snd e)) (snd e) r) L acc)"
proof (induction L arbitrary: changed acc)
  case Nil
  then show ?case by simp
next
  case (Cons e L)
  obtain b pts where e: "e = (b, pts)" by (cases e)
  with Cons.prems have "pts \<noteq> []" by simp
  then have f: "find_barycenter pts = Inr (spec_centroid pts)" by (rule find_barycenter_nonempty)
  from Cons.prems have "\<forall>e \<in> set L. snd e \<noteq> []" by simp
  from Cons.IH [OF this] e f show ?case by auto
qed

lemma find_barycenters_loop_Inr:
  "find_barycenters_loop L changed acc = Inr r \<Longrightarrow> \<forall>e \<in> set L. snd e \<noteq> []"
proof (induction L arbitrary: changed acc)
  case Nil
  then show ?case by simp
next
  case (Cons e L)
  obtain b pts where e: "e = (b, pts)" by (cases e)
  with Cons.prems obtain c where c: "find_barycenter pts = Inr c"
    and r: "find_barycenters_loop L (if Point_ne b c then True else changed) (AList.update c pts acc) = Inr r"
    by (auto split: sum.splits)
  from find_barycenter_Inr [OF c] Cons.IH [OF r] e show ?case by simp
qed

lemma find_barycenters_loop_Inl:
  "find_barycenters_loop L changed acc = Inl err \<Longrightarrow> err = ZeroDivisionError \<and> (\<exists>e \<in> set L. snd e = [])"
proof (induction L arbitrary: changed acc)
  case Nil
  then show ?case by simp
next
  case (Cons e L)
  obtain b pts where e: "e = (b, pts)" by (cases e)
  show ?case
  proof (cases "find_barycenter pts")
    case (Inl x)
    with Cons.prems e find_barycenter_Inl [OF Inl] show ?thesis by simp
  next
    case (Inr c)
    with Cons.prems e have
      "find_barycenters_loop L (if Point_ne b c then True else changed) (AList.update c pts acc) = Inl err"
      by simp
    from Cons.IH [OF this] show ?thesis by auto
  qed
qed

lemma fold_update_entries:
  "\<forall>x \<in> set acc. Q x \<Longrightarrow> \<forall>e \<in> set L. Q (g e, h e) \<Longrightarrow>
   \<forall>x \<in> set (fold (\<lambda>e r. AList.update (g e) (h e) r) L acc). Q x"
proof (induction L arbitrary: acc)
  case Nil
  then show ?case by simp
next
  case (Cons e L)
  have "\<forall>x \<in> set (AList.update (g e) (h e) acc). Q x"
    using Cons.prems set_update_subset [of "g e" "h e" acc] by auto
  moreover from Cons.prems(2) have "\<forall>e \<in> set L. Q (g e, h e)" by simp
  ultimately show ?case using Cons.IH by simp
qed

lemma fold_update_keys_gen:
  "fst ` set (fold (\<lambda>e r. AList.update (g e) (h e) r) L acc) = fst ` set acc \<union> g ` set L"
  by (induction L arbitrary: acc) (auto simp: AList.dom_update)

lemma fold_update_distinct_gen:
  "distinct (map fst acc) \<Longrightarrow> distinct (map fst (fold (\<lambda>e r. AList.update (g e) (h e) r) L acc))"
  by (induction L arbitrary: acc) (auto simp: AList.distinct_update)

lemma fold_update_fresh:
  "distinct (map g L) \<Longrightarrow> g ` set L \<inter> fst ` set acc = {} \<Longrightarrow>
   fold (\<lambda>e r. AList.update (g e) (h e) r) L acc = acc @ map (\<lambda>e. (g e, h e)) L"
proof (induction L arbitrary: acc)
  case Nil
  then show ?case by simp
next
  case (Cons e L)
  from Cons.prems(2) have "g e \<notin> fst ` set acc" by auto
  then have u: "AList.update (g e) (h e) acc = acc @ [(g e, h e)]" by (rule update_absent)
  from Cons.prems have "distinct (map g L)" and "g ` set L \<inter> fst ` set (acc @ [(g e, h e)]) = {}"
    by auto
  from Cons.IH [OF this] u show ?case by simp
qed

subsection \<open>Recomputation and the loop\<close>

lemma find_barycenters_Inr:
  assumes "find_barycenters L = Inr (changed, res)"
  shows "\<forall>e \<in> set L. snd e \<noteq> []"
    and "res = fold (\<lambda>e r. AList.update (spec_centroid (snd e)) (snd e) r) L []"
    and "changed = (\<exists>e \<in> set L. Point_ne (fst e) (spec_centroid (snd e)))"
proof -
  from assms show ne: "\<forall>e \<in> set L. snd e \<noteq> []"
    unfolding find_barycenters_def by (rule find_barycenters_loop_Inr)
  from find_barycenters_loop_returns [OF ne, of False "[]"] assms
  show "res = fold (\<lambda>e r. AList.update (spec_centroid (snd e)) (snd e) r) L []"
    and "changed = (\<exists>e \<in> set L. Point_ne (fst e) (spec_centroid (snd e)))"
    by (simp_all add: find_barycenters_def)
qed

lemma find_barycenters_fixed:
  assumes "find_barycenters L = Inr (changed, res)"
  shows "find_barycenters res = Inr (False, res)"
proof -
  note r = find_barycenters_Inr [OF assms]
  have ent: "\<forall>x \<in> set res. fst x = spec_centroid (snd x) \<and> snd x \<noteq> []"
    unfolding r(2)
  proof (rule fold_update_entries)
    show "\<forall>x \<in> set []. fst x = spec_centroid (snd x) \<and> snd x \<noteq> []" by simp
    show "\<forall>e \<in> set L. fst (spec_centroid (snd e), snd e) = spec_centroid (snd (spec_centroid (snd e), snd e)) \<and>
        snd (spec_centroid (snd e), snd e) \<noteq> []"
      using r(1) by simp
  qed
  have dist: "distinct (map fst res)"
    unfolding r(2) by (rule fold_update_distinct_gen) simp
  from ent have ne: "\<forall>e \<in> set res. snd e \<noteq> []" by simp
  have ch: "\<not> (\<exists>e \<in> set res. Point_ne (fst e) (spec_centroid (snd e)))"
    using ent by (auto simp: Point_ne_def Point_eq_refl)
  have "fold (\<lambda>e r. AList.update (spec_centroid (snd e)) (snd e) r) res [] =
      fold (\<lambda>e r. AList.update (fst e) (snd e) r) res []"
    by (rule fold_cong) (use ent in auto)
  also have "\<dots> = [] @ map (\<lambda>e. (fst e, snd e)) res"
    by (rule fold_update_fresh) (use dist in simp_all)
  finally have "fold (\<lambda>e r. AList.update (spec_centroid (snd e)) (snd e) r) res [] = res" by simp
  with find_barycenters_loop_returns [OF ne, of False "[]"] ch show ?thesis
    by (simp add: find_barycenters_def)
qed

lemma kmeans_loop_last_round:
  "kmeans_loop set_order fuel in_points barycenters = Some (Inr part) \<Longrightarrow>
   \<exists>bs pb. assign_barycenters in_points bs = Inr pb \<and>
     find_barycenters (group_points set_order pb) = Inr (False, part)"
proof (induction fuel arbitrary: barycenters)
  case 0
  then show ?case by simp
next
  case (Suc fuel)
  from Suc.prems obtain pb where pb: "assign_barycenters in_points barycenters = Inr pb"
    by (auto split: sum.splits)
  with Suc.prems obtain changed res where
    f: "find_barycenters (group_points set_order pb) = Inr (changed, res)"
    by (auto split: sum.splits)
  show ?case
  proof (cases changed)
    case True
    with Suc.prems pb f have "kmeans_loop set_order fuel in_points (map fst res) = Some (Inr part)"
      by simp
    from Suc.IH [OF this] show ?thesis .
  next
    case False
    with Suc.prems pb f have "res = part" by simp
    with f False have "find_barycenters (group_points set_order pb) = Inr (False, part)" by simp
    with pb show ?thesis by blast
  qed
qed

lemma kmeans_last_round:
  assumes "kmeans set_order draws fuel in_points in_k = Some (Inr part)"
  shows "\<exists>bs pb. assign_barycenters in_points bs = Inr pb \<and>
     find_barycenters (group_points set_order pb) = Inr (False, part)"
proof -
  from assms obtain bs where "kmeans_loop set_order fuel in_points bs = Some (Inr part)"
    by (auto simp: kmeans_def split: option.splits sum.splits)
  then show ?thesis by (rule kmeans_loop_last_round)
qed

text \<open>
  Claim C4. A partition that \<open>kmeans\<close> returns is a fixed point of the
  recomputation: \<open>_find_barycenters\<close> applied to it returns the flag \<open>False\<close> and
  the same partition, keys included.
\<close>

theorem kmeans_result_stable:
  assumes "kmeans set_order draws fuel in_points in_k = Some (Inr part)"
  shows "find_barycenters part = Inr (False, part)"
proof -
  from kmeans_last_round [OF assms] obtain pb where
    "find_barycenters (group_points set_order pb) = Inr (False, part)" by blast
  then show ?thesis by (rule find_barycenters_fixed)
qed

lemma min_by_value_Inl: "min_by_value kvs = Inl e \<Longrightarrow> e = ValueError"
  by (cases kvs) auto

lemma assign_loop_Inl: "assign_loop L acc = Inl e \<Longrightarrow> e = ValueError"
proof (induction L arbitrary: acc)
  case Nil
  then show ?case by simp
next
  case (Cons a L)
  obtain p d where a: "a = (p, d)" by (cases a)
  show ?case
  proof (cases "min_by_value d")
    case (Inl x)
    with Cons.prems a min_by_value_Inl [OF Inl] show ?thesis by simp
  next
    case (Inr c)
    with Cons.prems a have "assign_loop L (AList.update p c acc) = Inl e" by simp
    then show ?thesis by (rule Cons.IH)
  qed
qed

lemma groups_find_barycenters:
  assumes "is_set_order set_order"
  shows "\<exists>r. find_barycenters (group_points set_order pb) = Inr r"
proof -
  have "\<forall>e \<in> set (group_points set_order pb). snd e \<noteq> []"
    using group_points_nonempty [OF assms] by blast
  from find_barycenters_loop_returns [OF this, of False "[]"] show ?thesis
    by (simp add: find_barycenters_def)
qed

lemma kmeans_loop_no_zero_division:
  assumes "is_set_order set_order"
  shows "kmeans_loop set_order fuel in_points barycenters \<noteq> Some (Inl ZeroDivisionError)"
proof (induction fuel arbitrary: barycenters)
  case 0
  show ?case by simp
next
  case (Suc fuel)
  show ?case
  proof (cases "assign_barycenters in_points barycenters")
    case (Inl e)
    then have "e = ValueError" unfolding assign_barycenters_def by (rule assign_loop_Inl)
    with Inl show ?thesis by simp
  next
    case (Inr pb)
    from groups_find_barycenters [OF assms, of pb] obtain changed res where
      "find_barycenters (group_points set_order pb) = Inr (changed, res)" by (metis prod.collapse)
    with Inr Suc.IH show ?thesis by simp
  qed
qed

text \<open>
  Claim C10. In every round, whatever the barycenters, the groups handed to
  \<open>_find_barycenters\<close> have as keys exactly the barycenters that were assigned to
  some point (a barycenter with no point gets no entry), every group has a member, and
  so the recomputation returns; \<open>kmeans\<close> never raises \<open>ZeroDivisionError\<close>.
\<close>

theorem groups_never_empty:
  assumes "is_set_order set_order"
  shows "(assign_barycenters points barycenters = Inr pb \<longrightarrow>
            set (map fst (group_points set_order pb)) = snd ` set pb \<and>
            (\<forall>e \<in> set (group_points set_order pb). snd e \<noteq> []) \<and>
            (\<exists>r. find_barycenters (group_points set_order pb) = Inr r)) \<and>
         kmeans set_order draws fuel in_points in_k \<noteq> Some (Inl ZeroDivisionError)"
proof -
  have A: "set (map fst (group_points set_order pb)) = snd ` set pb"
    by (rule group_points_keys(1) [OF assms])
  have B: "\<forall>e \<in> set (group_points set_order pb). snd e \<noteq> []"
    using group_points_nonempty [OF assms] by blast
  have C: "\<exists>r. find_barycenters (group_points set_order pb) = Inr r"
    by (rule groups_find_barycenters [OF assms])
  have D: "kmeans set_order draws fuel in_points in_k \<noteq> Some (Inl ZeroDivisionError)"
  proof (cases "choose_barycenters draws in_points in_k")
    case None
    then show ?thesis by (simp add: kmeans_def)
  next
    case (Some r)
    show ?thesis
    proof (cases r)
      case (Inl e)
      with Some have "choose_barycenters draws in_points in_k = Some (Inl e)" by simp
      then have False
        by (auto simp: choose_barycenters_def x_min_max_def y_min_max_def split: prod.splits)
      then show ?thesis ..
    next
      case (Inr bs)
      with Some kmeans_loop_no_zero_division [OF assms, of fuel in_points bs] show ?thesis
        by (simp add: kmeans_def)
    qed
  qed
  from A B C D show ?thesis by blast
qed

text \<open>
  Claim C1. When \<open>kmeans\<close> returns a partition, the member lists together hold
  exactly the input points, none twice, the keys are distinct, and every input point is
  in the member list of exactly one entry.
\<close>

theorem kmeans_covers_points:
  assumes "is_set_order set_order"
    and "kmeans set_order draws fuel in_points in_k = Some (Inr part)"
  shows "set (concat (map snd part)) = set in_points \<and> distinct (concat (map snd part)) \<and>
         distinct (map fst part) \<and>
         (\<forall>p \<in> set in_points. \<exists>!e. e \<in> set part \<and> p \<in> set (snd e))"
proof -
  from kmeans_last_round [OF assms(2)] obtain bs pb where
    pb: "assign_barycenters in_points bs = Inr pb"
    and f: "find_barycenters (group_points set_order pb) = Inr (False, part)" by blast
  let ?L = "group_points set_order pb"
  let ?sc = "\<lambda>e. spec_centroid (snd e)"
  note a = assign_barycenters_result [OF pb]
  have sep: "\<forall>e1 \<in> set pb. \<forall>e2 \<in> set pb. Point_eq (snd e1) (snd e2) \<longrightarrow> snd e1 = snd e2"
    using a(3) first_nearest_separated by blast
  note r = find_barycenters_Inr [OF f]
  from r(3) have same: "\<forall>e \<in> set ?L. Point_eq (fst e) (?sc e)" by (simp add: Point_ne_def)
  note gk = group_points_keys [OF assms(1), of pb]
  have inj: "inj_on ?sc (set ?L)"
  proof (rule inj_onI)
    fix e1 e2 assume e: "e1 \<in> set ?L" "e2 \<in> set ?L" and eq: "?sc e1 = ?sc e2"
    from same e eq have "Point_eq (fst e1) (fst e2)"
      by (metis Point_eq_sym Point_eq_trans)
    moreover from e gk(1) have "fst e1 \<in> snd ` set pb" "fst e2 \<in> snd ` set pb" by auto
    then obtain x1 x2 where "x1 \<in> set pb" "snd x1 = fst e1" "x2 \<in> set pb" "snd x2 = fst e2"
      by (metis imageE)
    ultimately have "fst e1 = fst e2" using sep by metis
    with e gk(2) show "e1 = e2" by (metis eq_key_imp_eq_value prod.collapse)
  qed
  from gk(2) have "distinct ?L" by (simp add: distinct_map)
  with inj have dk: "distinct (map ?sc ?L)" by (simp add: distinct_map)
  have part: "part = map (\<lambda>e. (?sc e, snd e)) ?L"
    unfolding r(2) using fold_update_fresh [OF dk, of "[]" snd] by simp
  then have ms: "map snd part = map snd ?L" and mf: "map fst part = map ?sc ?L"
    by (simp_all add: comp_def)
  note c = group_points_cover [OF assms(1) a(2) sep]
  from c ms a(1) have A: "set (concat (map snd part)) = set in_points"
    and B: "distinct (concat (map snd part))" by simp_all
  from dk mf have C: "distinct (map fst part)" by simp
  have D: "\<exists>!e. e \<in> set part \<and> p \<in> set (snd e)" if "p \<in> set in_points" for p
  proof -
    from that A have "p \<in> set (concat (map snd part))" by simp
    then obtain e where e: "e \<in> set part" "p \<in> set (snd e)" by auto
    have u: "e' = e" if e': "e' \<in> set part" "p \<in> set (snd e')" for e'
    proof -
      have s: "snd e' = snd e"
      proof (rule ccontr)
        assume n: "snd e' \<noteq> snd e"
        from e(1) e'(1) have m: "snd e' \<in> set (map snd part)" "snd e \<in> set (map snd part)"
          by simp_all
        from B have "\<forall>ys zs. ys \<in> set (map snd part) \<and> zs \<in> set (map snd part) \<and> ys \<noteq> zs
            \<longrightarrow> set ys \<inter> set zs = {}"
          unfolding distinct_concat_iff by (rule conjunct2 [OF conjunct2])
        with m n have "set (snd e') \<inter> set (snd e) = {}" by blast
        with e(2) e'(2) show False by blast
      qed
      from e(1) have "e \<in> set (map (\<lambda>e. (?sc e, snd e)) ?L)" unfolding part .
      then have f1: "fst e = ?sc e" by auto
      from e'(1) have "e' \<in> set (map (\<lambda>e. (?sc e, snd e)) ?L)" unfolding part .
      then have f2: "fst e' = ?sc e'" by auto
      from s f1 f2 show ?thesis by (simp add: prod_eq_iff)
    qed
    show ?thesis
    proof (rule ex1I [of _ e])
      from e show "e \<in> set part \<and> p \<in> set (snd e)" by simp
    next
      fix e' assume "e' \<in> set part \<and> p \<in> set (snd e')"
      then show "e' = e" using u [of e'] by simp
    qed
  qed
  then have D': "\<forall>p \<in> set in_points. \<exists>!e. e \<in> set part \<and> p \<in> set (snd e)" by simp
  from A B C D' show ?thesis by (intro conjI)
qed

subsection \<open>Choosing the barycenters\<close>

lemma round_half_even_of_int: "round_half_even (of_int m) = m"
  by (simp add: round_half_even_def)

lemma py_round1_idem: "py_round1 (py_round1 v) = py_round1 v"
proof (cases v)
  case NegZero
  then show ?thesis by (simp add: py_round1_def)
next
  case (Flt r)
  then show ?thesis
    by (auto simp: py_round1_def Let_def round_half_even_of_int)
qed

lemma round_half_even_lower: "of_int a \<le> x \<Longrightarrow> a \<le> round_half_even x"
proof -
  assume "of_int a \<le> x"
  then have "a \<le> \<lfloor>x\<rfloor>" by (simp add: le_floor_iff)
  moreover have "\<lfloor>x\<rfloor> \<le> round_half_even x" by (simp add: round_half_even_def Let_def)
  ultimately show ?thesis by simp
qed

lemma round_half_even_floor: "x - of_int \<lfloor>x\<rfloor> < 1 / 2 \<Longrightarrow> round_half_even x = \<lfloor>x\<rfloor>"
  by (simp add: round_half_even_def Let_def)

lemma round_half_even_le_ceil: "round_half_even x \<le> \<lfloor>x\<rfloor> + 1"
  by (simp add: round_half_even_def Let_def)

lemma round_half_even_upper: "x \<le> of_int b \<Longrightarrow> round_half_even x \<le> b"
proof -
  assume h: "x \<le> of_int b"
  have "of_int \<lfloor>x\<rfloor> \<le> x" by (rule of_int_floor_le)
  from this h have "(of_int \<lfloor>x\<rfloor> :: real) \<le> of_int b" by (rule order_trans)
  then have f: "\<lfloor>x\<rfloor> \<le> b" by (simp only: of_int_le_iff)
  show ?thesis
  proof (cases "x - of_int \<lfloor>x\<rfloor> < 1 / 2")
    case True
    then have "round_half_even x = \<lfloor>x\<rfloor>" by (rule round_half_even_floor)
    with f show ?thesis by simp
  next
    case False
    then have "of_int \<lfloor>x\<rfloor> < x" by arith
    from this h have "(of_int \<lfloor>x\<rfloor> :: real) < of_int b" by (rule less_le_trans)
    then have "\<lfloor>x\<rfloor> < b" by (simp only: of_int_less_iff)
    with round_half_even_le_ceil [of x] show ?thesis by arith
  qed
qed

lemma py_round1_between:
  assumes "py_round1 lo = lo" and "py_round1 hi = hi" and "fval lo \<le> fval v" and "fval v \<le> fval hi"
  shows "fval lo \<le> fval (py_round1 v) \<and> fval (py_round1 v) \<le> fval hi"
proof -
  let ?a = "round_half_even (fval lo * 10)" and ?b = "round_half_even (fval hi * 10)"
  from assms(1) py_round1_value [of lo] have lo: "fval lo = of_int ?a / 10" by simp
  from assms(2) py_round1_value [of hi] have hi: "fval hi = of_int ?b / 10" by simp
  from lo assms(3) have "of_int ?a \<le> fval v * 10" by simp
  then have A: "?a \<le> round_half_even (fval v * 10)" by (rule round_half_even_lower)
  from hi assms(4) have "fval v * 10 \<le> of_int ?b" by simp
  then have B: "round_half_even (fval v * 10) \<le> ?b" by (rule round_half_even_upper)
  from A have "(of_int ?a :: real) \<le> of_int (round_half_even (fval v * 10))" by (simp only: of_int_le_iff)
  moreover from B have "(of_int (round_half_even (fval v * 10)) :: real) \<le> of_int ?b" by (simp only: of_int_le_iff)
  ultimately show ?thesis
    unfolding py_round1_value [of v] by (subst lo, subst hi) (simp add: divide_right_mono)
qed

lemma min_max_fold:
  "fold (\<lambda>point (lo, hi).
           (if float_gt lo (g point) then g point else lo,
            if float_lt hi (g point) then g point else hi)) ps (lo0, hi0) = (lo, hi) \<Longrightarrow>
   fval lo \<le> fval lo0 \<and> fval hi0 \<le> fval hi \<and> (lo = lo0 \<or> lo \<in> g ` set ps) \<and> (hi = hi0 \<or> hi \<in> g ` set ps)"
proof (induction ps arbitrary: lo0 hi0)
  case Nil
  then show ?case by simp
next
  case (Cons p ps)
  let ?lo1 = "if float_gt lo0 (g p) then g p else lo0"
  let ?hi1 = "if float_lt hi0 (g p) then g p else hi0"
  from Cons.prems have "fold (\<lambda>point (lo, hi).
           (if float_gt lo (g point) then g point else lo,
            if float_lt hi (g point) then g point else hi)) ps (?lo1, ?hi1) = (lo, hi)"
    by simp
  from Cons.IH [OF this] show ?case
    by (auto simp: float_gt_def float_lt_def split: if_splits)
qed

lemma uniform_between:
  assumes "fval a \<le> fval b" and "0 \<le> u" and "u < 1"
  shows "fval a \<le> fval (uniform a b u) \<and> fval (uniform a b u) \<le> fval b"
proof -
  from assms have "0 \<le> (fval b - fval a) * u" by simp
  moreover from assms have "(fval b - fval a) * u \<le> (fval b - fval a)"
    by (simp add: mult_left_le)
  ultimately show ?thesis by (simp add: uniform_def)
qed


lemma choose_loop_result:
  assumes "choose_loop x_min x_max y_min y_max in_k draws selected result = Some bs"
    and "\<forall>c \<in> set result. \<exists>d. selected (fval (pt_x c)) = Some d \<and> d (fval (pt_y c)) = Some ()"
    and "distinct (map (\<lambda>c. (fval (pt_x c), fval (pt_y c))) result)"
    and "\<forall>c \<in> set result. Q c"
    and "\<And>u1 u2. u1 \<in> set draws \<Longrightarrow> u2 \<in> set draws \<Longrightarrow>
           Q \<lparr>pt_x = py_round1 (uniform x_min x_max u1), pt_y = py_round1 (uniform y_min y_max u2)\<rparr>"
  shows "int (length bs) = in_k \<and> distinct (map (\<lambda>c. (fval (pt_x c), fval (pt_y c))) bs) \<and>
         (\<forall>c \<in> set bs. Q c)"
  using assms
proof (induction x_min x_max y_min y_max in_k draws selected result rule: choose_loop.induct)
  case (1 x_min x_max y_min y_max in_k u1 u2 draws selected result)
  let ?x = "py_round1 (uniform x_min x_max u1)"
  let ?y = "py_round1 (uniform y_min y_max u2)"
  let ?sel_x = "case selected (fval ?x) of None \<Rightarrow> Map.empty | Some d \<Rightarrow> d"
  let ?new = "\<lparr>pt_x = ?x, pt_y = ?y\<rparr>"
  have new: "Point ?x ?y = ?new" by (simp add: Point_def py_round1_idem)
  have Qrest: "\<And>v1 v2. v1 \<in> set draws \<Longrightarrow> v2 \<in> set draws \<Longrightarrow>
           Q \<lparr>pt_x = py_round1 (uniform x_min x_max v1), pt_y = py_round1 (uniform y_min y_max v2)\<rparr>"
    using "1.prems"(5) by simp
  show ?case
  proof (cases "?sel_x (fval ?y) \<noteq> None")
    case True
    with "1.prems"(1) have r: "choose_loop x_min x_max y_min y_max in_k draws selected result = Some bs"
      by (simp add: Let_def)
    from "1.IH"(1) [OF refl refl refl True r "1.prems"(2) "1.prems"(3) "1.prems"(4) Qrest]
    show ?thesis by simp
  next
    case False
    let ?selected' = "selected(fval ?x \<mapsto> ?sel_x(fval ?y \<mapsto> ()))"
    let ?result' = "result @ [Point ?x ?y]"
    have fresh: "(fval ?x, fval ?y) \<notin> (\<lambda>c. (fval (pt_x c), fval (pt_y c))) ` set result"
    proof
      assume "(fval ?x, fval ?y) \<in> (\<lambda>c. (fval (pt_x c), fval (pt_y c))) ` set result"
      then obtain c where c: "c \<in> set result" "fval (pt_x c) = fval ?x" "fval (pt_y c) = fval ?y"
        by auto
      with "1.prems"(2) obtain d where "selected (fval ?x) = Some d" "d (fval ?y) = Some ()"
        by metis
      with False show False by simp
    qed
    have d': "distinct (map (\<lambda>c. (fval (pt_x c), fval (pt_y c))) ?result')"
      using "1.prems"(3) fresh by (simp add: new)
    have Q': "\<forall>c \<in> set ?result'. Q c"
      using "1.prems"(4) "1.prems"(5) [of u1 u2] by (simp add: new)
    have s': "\<forall>c \<in> set ?result'. \<exists>d. ?selected' (fval (pt_x c)) = Some d \<and> d (fval (pt_y c)) = Some ()"
    proof
      fix c assume "c \<in> set ?result'"
      then have "c \<in> set result \<or> c = ?new" by (auto simp: new)
      then show "\<exists>d. ?selected' (fval (pt_x c)) = Some d \<and> d (fval (pt_y c)) = Some ()"
      proof
        assume "c \<in> set result"
        with "1.prems"(2) obtain d where d: "selected (fval (pt_x c)) = Some d" "d (fval (pt_y c)) = Some ()"
          by blast
        show ?thesis
        proof (cases "fval (pt_x c) = fval ?x")
          case True
          with d show ?thesis by simp
        next
          case False
          with d show ?thesis by simp
        qed
      next
        assume "c = ?new"
        then show ?thesis by simp
      qed
    qed
    show ?thesis
    proof (cases "int (length ?result') = in_k")
      case True
      with False "1.prems"(1) have "bs = ?result'" by (simp add: Let_def)
      with True d' Q' show ?thesis by simp
    next
      case ne: False
      with False "1.prems"(1) have
        r: "choose_loop x_min x_max y_min y_max in_k draws ?selected' ?result' = Some bs"
        by (simp add: Let_def)
      from "1.IH"(2) [OF refl refl refl False refl refl ne r s' d' Q' Qrest]
      show ?thesis by simp
    qed
  qed
qed simp_all


lemma py_round1_zero: "py_round1 (Flt 0) = Flt 0"
  by (simp add: py_round1_def round_half_even_def)

lemma min_max_rounded:
  assumes "fold (\<lambda>point (lo, hi).
           (if float_gt lo (g point) then g point else lo,
            if float_lt hi (g point) then g point else hi)) ps (Flt 0, Flt 0) = (lo, hi)"
    and "\<forall>p \<in> set ps. py_round1 (g p) = g p"
  shows "py_round1 lo = lo \<and> py_round1 hi = hi \<and> fval lo \<le> fval hi"
proof -
  from min_max_fold [OF assms(1)] have
    b: "fval lo \<le> 0" "0 \<le> fval hi" and m: "lo = Flt 0 \<or> lo \<in> g ` set ps" "hi = Flt 0 \<or> hi \<in> g ` set ps"
    by simp_all
  from m(1) assms(2) have "py_round1 lo = lo" by (auto simp: py_round1_zero)
  moreover from m(2) assms(2) have "py_round1 hi = hi" by (auto simp: py_round1_zero)
  ultimately show ?thesis using b by simp
qed

text \<open>
  Claim C7. When \<open>_choose_barycenters\<close> returns, for input points as \<open>Point\<close>
  builds them and random draws of \<open>[0, 1)\<close>, it returns \<open>_in_k\<close> barycenters, no
  two with the same pair of coordinate values (so no two equal by \<open>__eq__\<close>), each
  with coordinates rounded to one decimal place and inside the ranges that
  \<open>x_min_max\<close> and \<open>y_min_max\<close> computed for the input points.
\<close>

theorem choose_barycenters_distinct:
  assumes "choose_barycenters draws in_points in_k = Some r"
    and "\<forall>p \<in> set in_points. py_round1 (pt_x p) = pt_x p \<and> py_round1 (pt_y p) = pt_y p"
    and "\<forall>u \<in> set draws. 0 \<le> u \<and> u < 1"
  shows "\<exists>bs x_min x_max y_min y_max. r = Inr bs \<and> int (length bs) = in_k \<and>
      distinct (map (\<lambda>c. (fval (pt_x c), fval (pt_y c))) bs) \<and>
      (\<forall>c \<in> set bs. \<forall>c' \<in> set bs. Point_eq c c' \<longrightarrow> c = c') \<and>
      x_min_max in_points = Inr (x_min, x_max) \<and> y_min_max in_points = Inr (y_min, y_max) \<and>
      (\<forall>c \<in> set bs. py_round1 (pt_x c) = pt_x c \<and> py_round1 (pt_y c) = pt_y c \<and>
         fval x_min \<le> fval (pt_x c) \<and> fval (pt_x c) \<le> fval x_max \<and>
         fval y_min \<le> fval (pt_y c) \<and> fval (pt_y c) \<le> fval y_max)"
proof -
  obtain x_min x_max where fx: "fold (\<lambda>point (x_min, x_max).
                  (if float_gt x_min (pt_x point) then pt_x point else x_min,
                   if float_lt x_max (pt_x point) then pt_x point else x_max))
               in_points (Flt 0, Flt 0) = (x_min, x_max)" by (meson surj_pair)
  obtain y_min y_max where fy: "fold (\<lambda>point (y_min, y_max).
                  (if float_gt y_min (pt_y point) then pt_y point else y_min,
                   if float_lt y_max (pt_y point) then pt_y point else y_max))
               in_points (Flt 0, Flt 0) = (y_min, y_max)" by (meson surj_pair)
  from fx have X: "x_min_max in_points = Inr (x_min, x_max)" by (simp add: x_min_max_def)
  from fy have Y: "y_min_max in_points = Inr (y_min, y_max)" by (simp add: y_min_max_def)
  from assms(2) have "\<forall>p \<in> set in_points. py_round1 (pt_x p) = pt_x p" by simp
  from min_max_rounded [OF fx this] have rx: "py_round1 x_min = x_min" "py_round1 x_max = x_max"
    "fval x_min \<le> fval x_max" by simp_all
  from assms(2) have "\<forall>p \<in> set in_points. py_round1 (pt_y p) = pt_y p" by simp
  from min_max_rounded [OF fy this] have ry: "py_round1 y_min = y_min" "py_round1 y_max = y_max"
    "fval y_min \<le> fval y_max" by simp_all
  let ?Q = "\<lambda>c. py_round1 (pt_x c) = pt_x c \<and> py_round1 (pt_y c) = pt_y c \<and>
         fval x_min \<le> fval (pt_x c) \<and> fval (pt_x c) \<le> fval x_max \<and>
         fval y_min \<le> fval (pt_y c) \<and> fval (pt_y c) \<le> fval y_max"
  from assms(1) X Y obtain bs where r: "r = Inr bs"
    and l: "choose_loop x_min x_max y_min y_max in_k draws Map.empty [] = Some bs"
    by (auto simp: choose_barycenters_def)
  have step: "?Q \<lparr>pt_x = py_round1 (uniform x_min x_max u1), pt_y = py_round1 (uniform y_min y_max u2)\<rparr>"
    if "u1 \<in> set draws" "u2 \<in> set draws" for u1 u2
  proof -
    from that assms(3) have u: "0 \<le> u1" "u1 < 1" "0 \<le> u2" "u2 < 1" by simp_all
    from uniform_between [OF rx(3) u(1,2)] py_round1_between [OF rx(1,2), of "uniform x_min x_max u1"]
    have bx: "fval x_min \<le> fval (py_round1 (uniform x_min x_max u1)) \<and>
        fval (py_round1 (uniform x_min x_max u1)) \<le> fval x_max" by simp
    from uniform_between [OF ry(3) u(3,4)] py_round1_between [OF ry(1,2), of "uniform y_min y_max u2"]
    have "fval y_min \<le> fval (py_round1 (uniform y_min y_max u2)) \<and>
        fval (py_round1 (uniform y_min y_max u2)) \<le> fval y_max" by simp
    with bx show ?thesis by (simp add: py_round1_idem)
  qed
  have "int (length bs) = in_k \<and> distinct (map (\<lambda>c. (fval (pt_x c), fval (pt_y c))) bs) \<and>
         (\<forall>c \<in> set bs. ?Q c)"
  proof (rule choose_loop_result [OF l])
    show "\<forall>c \<in> set []. \<exists>d. Map.empty (fval (pt_x c)) = Some d \<and> d (fval (pt_y c)) = Some ()"
      by simp
    show "distinct (map (\<lambda>c. (fval (pt_x c), fval (pt_y c))) [])" by simp
    show "\<forall>c \<in> set []. ?Q c" by simp
    show "?Q \<lparr>pt_x = py_round1 (uniform x_min x_max u1), pt_y = py_round1 (uniform y_min y_max u2)\<rparr>"
      if "u1 \<in> set draws" "u2 \<in> set draws" for u1 u2
      using that by (rule step)
  qed
  then have len: "int (length bs) = in_k"
    and d: "distinct (map (\<lambda>c. (fval (pt_x c), fval (pt_y c))) bs)"
    and q: "\<forall>c \<in> set bs. ?Q c" by blast+
  have sep: "\<forall>c \<in> set bs. \<forall>c' \<in> set bs. Point_eq c c' \<longrightarrow> c = c'"
  proof (intro ballI impI)
    fix c c' assume c: "c \<in> set bs" "c' \<in> set bs" and e: "Point_eq c c'"
    from d have "inj_on (\<lambda>c. (fval (pt_x c), fval (pt_y c))) (set bs)" by (simp add: distinct_map)
    moreover from e have "(fval (pt_x c), fval (pt_y c)) = (fval (pt_x c'), fval (pt_y c'))"
      by (simp add: Point_eq_def float_eq_def)
    ultimately show "c = c'" using c by (rule inj_onD)
  qed
  from r len d sep X Y q show ?thesis by blast
qed

section \<open>Concrete runs\<close>

lemmas kmeans_eval =
  kmeans_def choose_barycenters_def x_min_max_def y_min_max_def Point_def py_round1_def
  round_half_even_def Let_def float_gt_def float_lt_def uniform_def assign_barycenters_def
  all_distances_def point_distances_def distance_def group_points_def Point_eq_def float_eq_def
  find_barycenters_def find_barycenter_def Point_ne_def power2_eq_square

lemma is_set_order_id: "is_set_order (\<lambda>xs. xs)"
  by (simp add: is_set_order_def)

lemma kmeans_example:
  "kmeans (\<lambda>xs. xs) [1 / 2, 1 / 2, 1 / 5, 3 / 10] 5
     [Point (Flt 0) (Flt 0), Point (Flt 0) (Flt 1), Point (Flt 10) (Flt 10)] 2 =
   Some (Inr [(\<lparr>pt_x = Flt 0, pt_y = Flt (1 / 2)\<rparr>, [Point (Flt 0) (Flt 0), Point (Flt 0) (Flt 1)]),
              (\<lparr>pt_x = Flt 10, pt_y = Flt 10\<rparr>, [Point (Flt 10) (Flt 10)])])"
  by (simp add: kmeans_eval eval_nat_numeral)

text \<open>A run of \<open>kmeans\<close> that returns, for claim C1: three points, two barycenters.\<close>

theorem kmeans_covers_points_witness:
  "is_set_order (\<lambda>xs. xs) \<and>
   kmeans (\<lambda>xs. xs) [1 / 2, 1 / 2, 1 / 5, 3 / 10] 5
     [Point (Flt 0) (Flt 0), Point (Flt 0) (Flt 1), Point (Flt 10) (Flt 10)] 2 =
   Some (Inr [(\<lparr>pt_x = Flt 0, pt_y = Flt (1 / 2)\<rparr>, [Point (Flt 0) (Flt 0), Point (Flt 0) (Flt 1)]),
              (\<lparr>pt_x = Flt 10, pt_y = Flt 10\<rparr>, [Point (Flt 10) (Flt 10)])]) \<and>
   set (concat (map snd
      [(\<lparr>pt_x = Flt 0, pt_y = Flt (1 / 2)\<rparr>, [Point (Flt 0) (Flt 0), Point (Flt 0) (Flt 1)]),
       (\<lparr>pt_x = Flt 10, pt_y = Flt 10\<rparr>, [Point (Flt 10) (Flt 10)])])) =
   set [Point (Flt 0) (Flt 0), Point (Flt 0) (Flt 1), Point (Flt 10) (Flt 10)] \<and>
   distinct (concat (map snd
      [(\<lparr>pt_x = Flt 0, pt_y = Flt (1 / 2)\<rparr>, [Point (Flt 0) (Flt 0), Point (Flt 0) (Flt 1)]),
       (\<lparr>pt_x = Flt 10, pt_y = Flt 10\<rparr>, [Point (Flt 10) (Flt 10)])]))"
proof -
  note c = kmeans_covers_points [OF is_set_order_id kmeans_example]
  from c have A: "set (concat (map snd
      [(\<lparr>pt_x = Flt 0, pt_y = Flt (1 / 2)\<rparr>, [Point (Flt 0) (Flt 0), Point (Flt 0) (Flt 1)]),
       (\<lparr>pt_x = Flt 10, pt_y = Flt 10\<rparr>, [Point (Flt 10) (Flt 10)])])) =
   set [Point (Flt 0) (Flt 0), Point (Flt 0) (Flt 1), Point (Flt 10) (Flt 10)]" by (rule conjunct1)
  from c have B: "distinct (concat (map snd
      [(\<lparr>pt_x = Flt 0, pt_y = Flt (1 / 2)\<rparr>, [Point (Flt 0) (Flt 0), Point (Flt 0) (Flt 1)]),
       (\<lparr>pt_x = Flt 10, pt_y = Flt 10\<rparr>, [Point (Flt 10) (Flt 10)])]))"
    by (rule conjunct1 [OF conjunct2])
  from is_set_order_id kmeans_example A B show ?thesis by (intro conjI)
qed

text \<open>The same run for claim C4: the returned partition is reproduced by the recomputation.\<close>

theorem kmeans_result_stable_witness:
  "kmeans (\<lambda>xs. xs) [1 / 2, 1 / 2, 1 / 5, 3 / 10] 5
     [Point (Flt 0) (Flt 0), Point (Flt 0) (Flt 1), Point (Flt 10) (Flt 10)] 2 =
   Some (Inr [(\<lparr>pt_x = Flt 0, pt_y = Flt (1 / 2)\<rparr>, [Point (Flt 0) (Flt 0), Point (Flt 0) (Flt 1)]),
              (\<lparr>pt_x = Flt 10, pt_y = Flt 10\<rparr>, [Point (Flt 10) (Flt 10)])]) \<and>
   find_barycenters
     [(\<lparr>pt_x = Flt 0, pt_y = Flt (1 / 2)\<rparr>, [Point (Flt 0) (Flt 0), Point (Flt 0) (Flt 1)]),
      (\<lparr>pt_x = Flt 10, pt_y = Flt 10\<rparr>, [Point (Flt 10) (Flt 10)])] =
   Inr (False,
     [(\<lparr>pt_x = Flt 0, pt_y = Flt (1 / 2)\<rparr>, [Point (Flt 0) (Flt 0), Point (Flt 0) (Flt 1)]),
      (\<lparr>pt_x = Flt 10, pt_y = Flt 10\<rparr>, [Point (Flt 10) (Flt 10)])])"
  using kmeans_example kmeans_result_stable [OF kmeans_example] by (intro conjI)

text \<open>Claim C10 on an assignment that leaves the barycenter \<open>(9, 9)\<close> without a point.\<close>

theorem groups_never_empty_witness:
  "is_set_order (\<lambda>xs. xs) \<and>
   assign_barycenters [Point (Flt 0) (Flt 0), Point (Flt 3) (Flt 0)]
       [Point (Flt 1) (Flt 1), Point (Flt 9) (Flt 9)] =
     Inr [(Point (Flt 0) (Flt 0), Point (Flt 1) (Flt 1)), (Point (Flt 3) (Flt 0), Point (Flt 1) (Flt 1))] \<and>
   set (map fst (group_points (\<lambda>xs. xs)
      [(Point (Flt 0) (Flt 0), Point (Flt 1) (Flt 1)), (Point (Flt 3) (Flt 0), Point (Flt 1) (Flt 1))])) =
     {Point (Flt 1) (Flt 1)} \<and>
   (\<exists>r. find_barycenters (group_points (\<lambda>xs. xs)
      [(Point (Flt 0) (Flt 0), Point (Flt 1) (Flt 1)), (Point (Flt 3) (Flt 0), Point (Flt 1) (Flt 1))]) = Inr r) \<and>
   kmeans (\<lambda>xs. xs) [1 / 2, 1 / 2, 1 / 5, 3 / 10] 5
     [Point (Flt 0) (Flt 0), Point (Flt 0) (Flt 1), Point (Flt 10) (Flt 10)] 2 \<noteq> Some (Inl ZeroDivisionError)"
proof -
  let ?pb = "[(Point (Flt 0) (Flt 0), Point (Flt 1) (Flt 1)), (Point (Flt 3) (Flt 0), Point (Flt 1) (Flt 1))]"
  have a: "assign_barycenters [Point (Flt 0) (Flt 0), Point (Flt 3) (Flt 0)]
       [Point (Flt 1) (Flt 1), Point (Flt 9) (Flt 9)] = Inr ?pb"
    by (simp add: kmeans_eval)
  note g = groups_never_empty [OF is_set_order_id,
      where points = "[Point (Flt 0) (Flt 0), Point (Flt 3) (Flt 0)]"
        and barycenters = "[Point (Flt 1) (Flt 1), Point (Flt 9) (Flt 9)]" and pb = ?pb
        and draws = "[1 / 2, 1 / 2, 1 / 5, 3 / 10]" and fuel = 5
        and in_points = "[Point (Flt 0) (Flt 0), Point (Flt 0) (Flt 1), Point (Flt 10) (Flt 10)]"
        and in_k = 2]
  from g a have k: "set (map fst (group_points (\<lambda>xs. xs) ?pb)) = snd ` set ?pb"
    and f: "\<exists>r. find_barycenters (group_points (\<lambda>xs. xs) ?pb) = Inr r" by blast+
  from k have k': "set (map fst (group_points (\<lambda>xs. xs) ?pb)) = {Point (Flt 1) (Flt 1)}" by simp
  from g have z: "kmeans (\<lambda>xs. xs) [1 / 2, 1 / 2, 1 / 5, 3 / 10] 5
     [Point (Flt 0) (Flt 0), Point (Flt 0) (Flt 1), Point (Flt 10) (Flt 10)] 2 \<noteq> Some (Inl ZeroDivisionError)"
    by (rule conjunct2)
  from is_set_order_id a k' f z show ?thesis by (intro conjI)
qed

text \<open>Claim C7 on a sequence of draws whose second candidate repeats the first and is drawn again.\<close>

theorem choose_barycenters_distinct_witness:
  "choose_barycenters [1 / 2, 1 / 2, 1 / 2, 1 / 2, 1 / 5, 3 / 10]
      [Point (Flt 0) (Flt 0), Point (Flt 0) (Flt 1), Point (Flt 10) (Flt 10)] 2 =
     Some (Inr [\<lparr>pt_x = Flt 5, pt_y = Flt 5\<rparr>, \<lparr>pt_x = Flt 2, pt_y = Flt 3\<rparr>]) \<and>
   int (length [\<lparr>pt_x = Flt 5, pt_y = Flt 5\<rparr>, \<lparr>pt_x = Flt 2, pt_y = Flt 3\<rparr>]) = 2 \<and>
   distinct (map (\<lambda>c. (fval (pt_x c), fval (pt_y c)))
      [\<lparr>pt_x = Flt 5, pt_y = Flt 5\<rparr>, \<lparr>pt_x = Flt 2, pt_y = Flt 3\<rparr>])"
proof -
  let ?ps = "[Point (Flt 0) (Flt 0), Point (Flt 0) (Flt 1), Point (Flt 10) (Flt 10)]"
  let ?draws = "[1 / 2, 1 / 2, 1 / 2, 1 / 2, 1 / 5, 3 / 10] :: real list"
  have h1: "choose_barycenters ?draws ?ps 2 =
     Some (Inr [\<lparr>pt_x = Flt 5, pt_y = Flt 5\<rparr>, \<lparr>pt_x = Flt 2, pt_y = Flt 3\<rparr>])"
    by (simp add: kmeans_eval)
  have h2: "\<forall>p \<in> set ?ps. py_round1 (pt_x p) = pt_x p \<and> py_round1 (pt_y p) = pt_y p"
    by (simp add: Point_def py_round1_idem)
  have h3: "\<forall>u \<in> set ?draws. 0 \<le> u \<and> u < 1" by simp
  from choose_barycenters_distinct [OF h1 h2 h3] h1 show ?thesis by auto
qed

end
